theory Spec2Isabelle
  imports Main
begin

section \<open>Python values and string primitives\<close>

text \<open>
  The formatter reads rows from \<^verbatim>\<open>csv.DictReader\<close>. A cell of such a row is a string,
  or \<^verbatim>\<open>None\<close> when the line is shorter than the header. Strings are modelled as
  \<^typ>\<open>string\<close>: one \<^typ>\<open>char\<close> is one code point below 256, so the development
  speaks about rows whose text stays in that range. On this range Python's whitespace
  (what \<^verbatim>\<open>str.strip()\<close> removes) is 9..13, 28..32, 133 and 160, and the only
  characters that \<^verbatim>\<open>re.IGNORECASE\<close> identifies with an ASCII letter are its two
  ASCII cases.
\<close>

datatype pyval = PNone | PStr string

datatype error = AttributeError | UnboundLocalError

definition dquote :: char where
  "dquote = CHR 0x22"

definition newline :: char where
  "newline = CHR 0x0A"

definition is_space :: "char \<Rightarrow> bool" where
  "is_space c =
     (let n = (of_char c :: nat)
      in (9 \<le> n \<and> n \<le> 13) \<or> (28 \<le> n \<and> n \<le> 32) \<or> n = 133 \<or> n = 160)"

text \<open>\<^verbatim>\<open>s.strip(...)\<close>: the longest run of characters to remove is dropped at each end.\<close>

definition strip_by :: "(char \<Rightarrow> bool) \<Rightarrow> string \<Rightarrow> string" where
  "strip_by P s = rev (dropWhile P (rev (dropWhile P s)))"

definition str_strip :: "string \<Rightarrow> string" where
  "str_strip s = strip_by is_space s"

definition str_strip_chars :: "string \<Rightarrow> string \<Rightarrow> string" where
  "str_strip_chars chars s = strip_by (\<lambda>c. c \<in> set chars) s"

text \<open>\<^verbatim>\<open>v.strip()\<close> on a cell: \<^verbatim>\<open>None\<close> has no such method.\<close>

definition py_strip :: "pyval \<Rightarrow> error + string" where
  "py_strip v = (case v of PNone \<Rightarrow> Inl AttributeError | PStr s \<Rightarrow> Inr (str_strip s))"

text \<open>\<^verbatim>\<open>s.split(',')\<close>: always at least one piece, empty pieces are kept.\<close>

fun str_split :: "char \<Rightarrow> string \<Rightarrow> string list" where
  "str_split sep [] = [Nil]"
| "str_split sep (c # cs) =
     (if c = sep then [] # str_split sep cs
      else (case str_split sep cs of
              [] \<Rightarrow> [c # Nil]
            | piece # pieces \<Rightarrow> (c # piece) # pieces))"

text \<open>Simple lower-case mapping of a code point below 256.\<close>

definition py_lower :: "char \<Rightarrow> char" where
  "py_lower c =
     (let n = (of_char c :: nat)
      in if (65 \<le> n \<and> n \<le> 90) \<or> (192 \<le> n \<and> n \<le> 222 \<and> n \<noteq> 215)
         then char_of (n + 32) else c)"

text \<open>
  \<^verbatim>\<open>re.match(r'^lit$', s, re.IGNORECASE)\<close> for a lower-case literal: every character of
  the text is compared after lower-casing, and \<^verbatim>\<open>$\<close> (without MULTILINE) matches at
  the end of the text and also just before a newline that ends the text.
\<close>

definition re_match_ci :: "string \<Rightarrow> string \<Rightarrow> bool" where
  "re_match_ci lit s =
     (let t = map py_lower s in t = lit \<or> t = lit @ [newline])"

section \<open>Name normalization\<close>

text \<open>The literals of \<^verbatim>\<open>skip_patterns\<close>; each stands for the pattern \<^verbatim>\<open>^literal$\<close>.\<close>

definition skip_patterns :: "string list" where
  "skip_patterns = [''various'', ''unknown'', ''anonymous'', ''editor'', ''translator'']"

text \<open>The loop over the patterns; \<open>True\<close> when it leaves the function with \<^verbatim>\<open>None\<close>.\<close>

fun skip_loop :: "string list \<Rightarrow> string \<Rightarrow> bool" where
  "skip_loop [] author_name = False"
| "skip_loop (pattern # rest) author_name =
     (if re_match_ci pattern author_name then True else skip_loop rest author_name)"

definition clean_author_name :: "pyval \<Rightarrow> string option" where
  "clean_author_name author_name =
     (case author_name of
        PNone \<Rightarrow> None
      | PStr s \<Rightarrow>
          if s = [] then None
          else
            let name = str_strip (str_strip_chars [dquote] (str_strip s))
            in if name = [] then None
               else if skip_loop skip_patterns name then None
               else Some name)"

section \<open>The aggregate\<close>

type_synonym row = "string \<rightharpoonup> pyval"

text \<open>\<^verbatim>\<open>row.get(key, default)\<close>.\<close>

definition row_get :: "row \<Rightarrow> string \<Rightarrow> string \<Rightarrow> pyval" where
  "row_get r key dflt = (case r key of None \<Rightarrow> PStr dflt | Some v \<Rightarrow> v)"

record BookReference =
  title :: string
  isbn :: string
  rating :: pyval
  shelf :: pyval
  role :: "string option"

record AuthorEntry =
  books :: "BookReference list"
  total_books :: int

text \<open>
  The \<^verbatim>\<open>defaultdict\<close>: keys in insertion order, each key once. Reading a missing key
  inserts the default entry at the end.
\<close>

type_synonym aggregate = "(string \<times> AuthorEntry) list"

definition default_entry :: AuthorEntry where
  "default_entry = \<lparr>books = [], total_books = 0\<rparr>"

text \<open>\<^verbatim>\<open>authors[key]\<close> followed by an in-place change \<open>f\<close> of the entry found.\<close>

fun dd_update :: "string \<Rightarrow> (AuthorEntry \<Rightarrow> AuthorEntry) \<Rightarrow> aggregate \<Rightarrow> aggregate" where
  "dd_update key f [] = [(key, f default_entry)]"
| "dd_update key f ((k, e) # rest) =
     (if k = key then (k, f e) # rest else (k, e) # dd_update key f rest)"

definition append_book :: "string \<Rightarrow> BookReference \<Rightarrow> aggregate \<Rightarrow> aggregate" where
  "append_book key b a = dd_update key (\<lambda>e. e\<lparr>books := books e @ [b]\<rparr>) a"

definition incr_total :: "string \<Rightarrow> aggregate \<Rightarrow> aggregate" where
  "incr_total key a = dd_update key (\<lambda>e. e\<lparr>total_books := total_books e + 1\<rparr>) a"

definition bind_err :: "error + 'a \<Rightarrow> ('a \<Rightarrow> error + 'b) \<Rightarrow> error + 'b" where
  "bind_err m f = (case m of Inl e \<Rightarrow> Inl e | Inr x \<Rightarrow> f x)"

text \<open>The dictionary literal of lines 55 to 60 (no role key).\<close>

definition main_book :: "row \<Rightarrow> string \<Rightarrow> error + BookReference" where
  "main_book r t =
     bind_err (py_strip (row_get r ''ISBN13'' '''')) (\<lambda>s.
       Inr \<lparr>title = t,
            isbn = str_strip_chars ''='' (str_strip_chars [dquote] s),
            rating = row_get r ''My Rating'' ''0'',
            shelf = row_get r ''Exclusive Shelf'' ''unknown'',
            role = None\<rparr>)"

text \<open>The dictionary literal of lines 69 to 75.\<close>

definition additional_book :: "row \<Rightarrow> string \<Rightarrow> error + BookReference" where
  "additional_book r t =
     bind_err (py_strip (row_get r ''ISBN13'' '''')) (\<lambda>s.
       Inr \<lparr>title = t,
            isbn = str_strip_chars ''='' (str_strip_chars [dquote] s),
            rating = row_get r ''My Rating'' ''0'',
            shelf = row_get r ''Exclusive Shelf'' ''unknown'',
            role = Some ''additional_author''\<rparr>)"

text \<open>The loop over \<^verbatim>\<open>additional_list\<close> (lines 67 to 76).\<close>

fun process_additional ::
  "row \<Rightarrow> string \<Rightarrow> string option list \<Rightarrow> aggregate \<Rightarrow> error + aggregate" where
  "process_additional r t [] a = Inr a"
| "process_additional r t (None # rest) a = process_additional r t rest a"
| "process_additional r t (Some additional_author # rest) a =
     (if additional_author \<noteq> []
      then bind_err (additional_book r t) (\<lambda>b.
             process_additional r t rest
               (incr_total additional_author (append_book additional_author b a)))
      else process_additional r t rest a)"

text \<open>The body of the loop over the rows (lines 49 to 76).\<close>

definition process_row :: "row \<Rightarrow> aggregate \<Rightarrow> error + aggregate" where
  "process_row r a =
     bind_err (py_strip (row_get r ''Title'' '''')) (\<lambda>t.
       let author = clean_author_name (row_get r ''Author'' '''')
       in bind_err (py_strip (row_get r ''Additional Authors'' '''')) (\<lambda>additional_authors.
            bind_err
              (case author of
                 None \<Rightarrow> Inr a
               | Some n \<Rightarrow>
                   if n \<noteq> []
                   then bind_err (main_book r t) (\<lambda>b. Inr (incr_total n (append_book n b a)))
                   else Inr a)
              (\<lambda>a1.
                 if additional_authors \<noteq> []
                 then process_additional r t
                        (map (\<lambda>name. clean_author_name (PStr name))
                           (str_split CHR '','' additional_authors)) a1
                 else Inr a1)))"

fun process_rows :: "row list \<Rightarrow> aggregate \<Rightarrow> error + aggregate" where
  "process_rows [] a = Inr a"
| "process_rows (r # rs) a = bind_err (process_row r a) (process_rows rs)"

text \<open>
  The function takes the rows the reader yields. With no row at all \<^verbatim>\<open>row_num\<close> is
  never bound and the report after the loop raises.
\<close>

definition extract_authors_from_goodreads :: "row list \<Rightarrow> error + aggregate" where
  "extract_authors_from_goodreads rows =
     bind_err (process_rows rows []) (\<lambda>a.
       if rows = [] then Inl UnboundLocalError else Inr a)"

section \<open>The output views\<close>

text \<open>
  \<^verbatim>\<open>sorted(authors_data.items(), key=lambda x: x[1]["total_books"], reverse=True)\<close>:
  a stable sort, and with \<^verbatim>\<open>reverse=True\<close> entries with equal keys keep their order.
\<close>

definition sorted_authors :: "aggregate \<Rightarrow> aggregate" where
  "sorted_authors authors_data =
     rev (sort_key (\<lambda>x. total_books (snd x)) (rev authors_data))"

record AuthorSummary =
  name :: string
  book_count :: int
  first_books :: "BookReference list"

record Metadata =
  source :: string
  total_authors :: int
  all_books :: int
  export_date :: string
  format_version :: string

record CacheFormat =
  metadata :: Metadata
  authors :: "AuthorSummary list"

text \<open>The loop of lines 106 to 111, appending to \<^verbatim>\<open>cache_format["authors"]\<close>.\<close>

fun add_authors :: "aggregate \<Rightarrow> AuthorSummary list \<Rightarrow> AuthorSummary list" where
  "add_authors [] out = out"
| "add_authors ((author_name, author_data) # rest) out =
     add_authors rest
       (out @ [\<lparr>name = author_name,
                book_count = total_books author_data,
                first_books = take 10 (books author_data)\<rparr>])"

text \<open>
  The fields \<^verbatim>\<open>books\<close> of an author and \<^verbatim>\<open>total_books\<close> of the metadata are
  \<^const>\<open>first_books\<close> and \<^const>\<open>all_books\<close> here, the names being taken by the entry.
\<close>

definition create_cache_warming_format :: "aggregate \<Rightarrow> CacheFormat" where
  "create_cache_warming_format authors_data =
     (let srt = sorted_authors authors_data
      in \<lparr>metadata =
            \<lparr>source = ''goodreads_export'',
             total_authors = int (length srt),
             all_books = sum_list (map (\<lambda>(_, data). total_books data) srt),
             export_date = ''2025-09-27'',
             format_version = ''1.0''\<rparr>,
          authors = add_authors srt []\<rparr>)"

definition create_simple_author_list :: "aggregate \<Rightarrow> string list" where
  "create_simple_author_list authors_data =
     map (\<lambda>(author_name, _). author_name) (sorted_authors authors_data)"

text \<open>The rows \<^verbatim>\<open>main\<close> hands to the CSV writer (lines 156 to 158), header first.\<close>

datatype csv_cell = CStr string | CInt int

definition main_csv_rows :: "aggregate \<Rightarrow> (csv_cell \<times> csv_cell) list" where
  "main_csv_rows authors_data =
     (CStr ''author'', CStr ''book_count'') #
     map (\<lambda>(author_name, author_data). (CStr author_name, CInt (total_books author_data)))
       (sorted_authors authors_data)"

section \<open>Vocabulary of the properties\<close>

text \<open>The books and the count an aggregate holds for a name (nothing if the key is absent).\<close>

definition entry_books :: "aggregate \<Rightarrow> string \<Rightarrow> BookReference list" where
  "entry_books a k = (case map_of a k of None \<Rightarrow> [] | Some e \<Rightarrow> books e)"

definition entry_total :: "aggregate \<Rightarrow> string \<Rightarrow> int" where
  "entry_total a k = (case map_of a k of None \<Rightarrow> 0 | Some e \<Rightarrow> total_books e)"

text \<open>
  The valid author names a record names, in the order the aggregator meets them: the
  primary author, then each valid piece of the additional-authors field.
\<close>

definition row_author_names :: "row \<Rightarrow> string list" where
  "row_author_names r =
     (case clean_author_name (row_get r ''Author'' '''') of None \<Rightarrow> [] | Some n \<Rightarrow> [n]) @
     (case row_get r ''Additional Authors'' '''' of
        PNone \<Rightarrow> []
      | PStr s \<Rightarrow>
          List.map_filter (\<lambda>piece. clean_author_name (PStr piece))
            (str_split CHR '','' (str_strip s)))"

definition attribution_count :: "row list \<Rightarrow> nat" where
  "attribution_count rows = sum_list (map (\<lambda>r. length (row_author_names r)) rows)"

text \<open>One attribution: the append and the increment the code performs together.\<close>

definition attribute :: "string \<times> BookReference \<Rightarrow> aggregate \<Rightarrow> aggregate" where
  "attribute kb a = incr_total (fst kb) (append_book (fst kb) (snd kb) a)"

text \<open>The attributions a row performs, in order; an error where the row raises.\<close>

fun additional_attributions ::
  "row \<Rightarrow> string \<Rightarrow> string option list \<Rightarrow> error + (string \<times> BookReference) list" where
  "additional_attributions r t [] = Inr []"
| "additional_attributions r t (None # rest) = additional_attributions r t rest"
| "additional_attributions r t (Some n # rest) =
     (if n \<noteq> []
      then bind_err (additional_book r t) (\<lambda>b.
             bind_err (additional_attributions r t rest) (\<lambda>xs. Inr ((n, b) # xs)))
      else additional_attributions r t rest)"

definition row_attributions :: "row \<Rightarrow> error + (string \<times> BookReference) list" where
  "row_attributions r =
     bind_err (py_strip (row_get r ''Title'' '''')) (\<lambda>t.
       bind_err (py_strip (row_get r ''Additional Authors'' '''')) (\<lambda>additional_authors.
         bind_err
           (case clean_author_name (row_get r ''Author'' '''') of
              None \<Rightarrow> Inr []
            | Some n \<Rightarrow>
                if n \<noteq> [] then bind_err (main_book r t) (\<lambda>b. Inr [(n, b)]) else Inr [])
           (\<lambda>xs.
              bind_err
                (if additional_authors \<noteq> []
                 then additional_attributions r t
                        (map (\<lambda>name. clean_author_name (PStr name))
                           (str_split CHR '','' additional_authors))
                 else Inr [])
                (\<lambda>ys. Inr (xs @ ys)))))"

fun rows_attributions :: "row list \<Rightarrow> error + (string \<times> BookReference) list" where
  "rows_attributions [] = Inr []"
| "rows_attributions (r # rs) =
     bind_err (row_attributions r) (\<lambda>xs.
       bind_err (rows_attributions rs) (\<lambda>ys. Inr (xs @ ys)))"

text \<open>Every entry counts exactly the books it lists.\<close>

definition counts_agree :: "aggregate \<Rightarrow> bool" where
  "counts_agree a = list_all (\<lambda>(k, e). total_books e = int (length (books e))) a"

text \<open>No entry is empty.\<close>

definition no_empty_entry :: "aggregate \<Rightarrow> bool" where
  "no_empty_entry a = list_all (\<lambda>(k, e). books e \<noteq> [] \<and> 1 \<le> total_books e) a"

definition sum_total :: "aggregate \<Rightarrow> int" where
  "sum_total a = sum_list (map (\<lambda>(k, e). total_books e) a)"

text \<open>Some occurrence of \<open>x\<close> lies before some occurrence of \<open>y\<close>.\<close>

fun appears_before :: "'a \<Rightarrow> 'a \<Rightarrow> 'a list \<Rightarrow> bool" where
  "appears_before x y [] = False"
| "appears_before x y (z # zs) = ((z = x \<and> y \<in> set zs) \<or> appears_before x y zs)"

text \<open>
  Step 2 of the normalization as the specification words it: one layer of surrounding
  double quotes, that is at most one quote at each end, then a trim.
\<close>

definition strip_one_layer :: "string \<Rightarrow> string" where
  "strip_one_layer s =
     (let s1 = (if s \<noteq> [] \<and> hd s = dquote then tl s else s);
          s2 = (if s1 \<noteq> [] \<and> last s1 = dquote then butlast s1 else s1)
      in str_strip s2)"

section \<open>Properties of the string primitives\<close>

lemma strip_by_split: "\<exists>ws. dropWhile P s = strip_by P s @ ws \<and> (\<forall>c\<in>set ws. P c)"
proof -
  let ?t = "dropWhile P s"
  have "rev ?t = takeWhile P (rev ?t) @ dropWhile P (rev ?t)" by simp
  then have "?t = rev (dropWhile P (rev ?t)) @ rev (takeWhile P (rev ?t))"
    by (metis rev_append rev_rev_ident)
  moreover have "\<forall>c\<in>set (rev (takeWhile P (rev ?t))). P c"
    by (auto dest: set_takeWhileD)
  ultimately show ?thesis unfolding strip_by_def by blast
qed

lemma strip_by_ends:
  assumes "strip_by P s \<noteq> []"
  shows "\<not> P (hd (strip_by P s))" and "\<not> P (last (strip_by P s))"
proof -
  obtain ws where ws: "dropWhile P s = strip_by P s @ ws" using strip_by_split by blast
  with assms have "dropWhile P s \<noteq> []" by simp
  then have "\<not> P (hd (dropWhile P s))" by (rule hd_dropWhile)
  with ws assms show "\<not> P (hd (strip_by P s))" by simp
  from assms have ne: "dropWhile P (rev (dropWhile P s)) \<noteq> []" by (simp add: strip_by_def)
  then have "\<not> P (hd (dropWhile P (rev (dropWhile P s))))" by (rule hd_dropWhile)
  with ne show "\<not> P (last (strip_by P s))" by (simp add: strip_by_def last_rev)
qed

lemma strip_by_id:
  assumes "s = [] \<or> (\<not> P (hd s) \<and> \<not> P (last s))"
  shows "strip_by P s = s"
proof (cases "s = []")
  case True
  then show ?thesis by (simp add: strip_by_def)
next
  case False
  with assms have h: "\<not> P (hd s)" and l: "\<not> P (last s)" by auto
  from False h have 1: "dropWhile P s = s" by (cases s) auto
  from False l have 2: "dropWhile P (rev s) = rev s" by (cases "rev s") (auto simp: last_rev hd_rev)
  show ?thesis by (simp add: strip_by_def 1 2)
qed

lemma strip_by_prefix: "\<forall>c\<in>set ws. P c \<Longrightarrow> strip_by P (ws @ s) = strip_by P s"
  by (simp add: strip_by_def)

lemma strip_by_all:
  assumes "\<forall>c\<in>set s. P c"
  shows "strip_by P s = []"
  using assms by (auto simp: strip_by_def dest: set_dropWhileD)

lemma strip_by_suffix:
  assumes "\<forall>c\<in>set ws. P c"
  shows "strip_by P (s @ ws) = strip_by P s"
proof (cases "\<forall>c\<in>set s. P c")
  case True
  with assms have "\<forall>c\<in>set (s @ ws). P c" by auto
  then have "strip_by P (s @ ws) = []" by (rule strip_by_all)
  with True show ?thesis by (simp add: strip_by_all)
next
  case False
  then obtain x where "x \<in> set s" "\<not> P x" by blast
  then have 1: "dropWhile P (s @ ws) = dropWhile P s @ ws" by simp
  from assms have 2: "dropWhile P (rev ws @ rev (dropWhile P s)) = dropWhile P (rev (dropWhile P s))"
    by (intro dropWhile_append2) simp
  show ?thesis by (simp add: strip_by_def 1 2)
qed

lemma char_of_eq_newline: "char_of (n::nat) = newline \<Longrightarrow> n mod 256 = 10"
proof -
  assume "char_of n = newline"
  then have "(of_char (char_of n) :: nat) = of_char newline" by simp
  then show ?thesis by (simp add: newline_def)
qed

lemma py_lower_newline: "py_lower c = newline \<Longrightarrow> c = newline"
  using char_of_eq_newline [of "of_char c + 32"]
  by (auto simp: py_lower_def Let_def split: if_splits)

lemma is_space_newline: "is_space newline"
  by (simp add: is_space_def newline_def)

lemma re_match_ci_stripped:
  assumes "s \<noteq> []" and "\<not> is_space (last s)"
  shows "re_match_ci lit s \<longleftrightarrow> map py_lower s = lit"
proof -
  have "map py_lower s \<noteq> lit @ [newline]"
  proof
    assume eq: "map py_lower s = lit @ [newline]"
    from assms(1) have "last (map py_lower s) = py_lower (last s)" by (simp add: last_map)
    with eq have "py_lower (last s) = newline" by simp
    then have "last s = newline" by (rule py_lower_newline)
    with assms(2) is_space_newline show False by simp
  qed
  then show ?thesis by (simp add: re_match_ci_def Let_def)
qed

lemma skip_loop_iff: "skip_loop ps s \<longleftrightarrow> (\<exists>p\<in>set ps. re_match_ci p s)"
  by (induction ps) auto

lemma str_strip_ends:
  "str_strip s \<noteq> [] \<Longrightarrow> \<not> is_space (hd (str_strip s)) \<and> \<not> is_space (last (str_strip s))"
  unfolding str_strip_def using strip_by_ends [of is_space s] by blast

section \<open>Name normalization: the skip list and idempotence\<close>

lemma clean_author_name_cases:
  "clean_author_name (PStr s) =
     (let n = str_strip (str_strip_chars [dquote] (str_strip s))
      in if n = [] \<or> map py_lower n \<in> set skip_patterns then None else Some n)"
proof (cases "str_strip (str_strip_chars [dquote] (str_strip s)) = []")
  case True
  then show ?thesis by (simp add: clean_author_name_def Let_def)
next
  case False
  let ?n = "str_strip (str_strip_chars [dquote] (str_strip s))"
  from False have "\<not> is_space (last ?n)" using str_strip_ends by blast
  with False have "\<And>p. re_match_ci p ?n \<longleftrightarrow> map py_lower ?n = p"
    by (rule re_match_ci_stripped)
  then have sk: "skip_loop skip_patterns ?n \<longleftrightarrow> map py_lower ?n \<in> set skip_patterns"
    by (auto simp: skip_loop_iff)
  from False have "s \<noteq> []"
    by (auto simp: str_strip_def str_strip_chars_def strip_by_def)
  with False sk show ?thesis by (simp add: clean_author_name_def Let_def)
qed



lemma strip_by_eq:
  assumes "\<forall>c\<in>set u. P c" and "\<forall>c\<in>set v. P c"
    and "mid = [] \<or> (\<not> P (hd mid) \<and> \<not> P (last mid))"
  shows "strip_by P (u @ mid @ v) = mid"
proof -
  have "strip_by P (u @ mid @ v) = strip_by P (mid @ v)"
    using assms(1) by (rule strip_by_prefix)
  also have "\<dots> = strip_by P mid" using assms(2) by (rule strip_by_suffix)
  also have "\<dots> = mid" using assms(3) by (rule strip_by_id)
  finally show ?thesis .
qed

lemma hd_append_pred:
  assumes "\<forall>c\<in>set xs. \<not> P c" and "ys \<noteq> []" and "\<not> P (hd ys)"
  shows "\<not> P (hd (xs @ ys))"
  using assms by (cases xs) auto

lemma last_append_pred:
  assumes "\<forall>c\<in>set xs. \<not> P c" and "ys \<noteq> []" and "\<not> P (last ys)"
  shows "\<not> P (last (ys @ xs))"
  using assms by (cases xs rule: rev_cases) auto

lemma not_space_dquote: "\<not> is_space dquote"
  by (simp add: is_space_def dquote_def)

lemma strip_by_decomp: "\<exists>u v. s = u @ strip_by P s @ v"
proof -
  obtain ws where "dropWhile P s = strip_by P s @ ws" using strip_by_split by blast
  then have "s = takeWhile P s @ strip_by P s @ ws"
    by (metis takeWhile_dropWhile_id)
  then show ?thesis by blast
qed

lemma length_strip_by: "length (strip_by P s) \<le> length s"
proof -
  obtain u v where "s = u @ strip_by P s @ v" using strip_by_decomp by blast
  then have "length s = length u + length (strip_by P s) + length v"
    by (metis length_append add.assoc)
  then show ?thesis by simp
qed

lemma strip_by_shorter:
  assumes "strip_by P s \<noteq> s"
  shows "length (strip_by P s) < length s"
proof -
  obtain u v where uv: "s = u @ strip_by P s @ v" using strip_by_decomp by blast
  then have len: "length s = length u + length (strip_by P s) + length v"
    by (metis length_append add.assoc)
  have "u \<noteq> [] \<or> v \<noteq> []"
  proof (rule ccontr)
    assume "\<not> (u \<noteq> [] \<or> v \<noteq> [])"
    with uv have "s = strip_by P s" by simp
    with assms show False by simp
  qed
  with len show ?thesis by auto
qed

lemma strip_by_shrinks:
  assumes "s \<noteq> []" and "P (hd s) \<or> P (last s)"
  shows "strip_by P s \<noteq> s"
proof
  assume eq: "strip_by P s = s"
  with assms(1) have "strip_by P s \<noteq> []" by simp
  then have "\<not> P (hd (strip_by P s))" and "\<not> P (last (strip_by P s))"
    by (rule strip_by_ends)+
  with eq assms(2) show False by simp
qed

lemma clean_author_name_result:
  assumes "clean_author_name (PStr s) = Some n"
  shows "n \<noteq> []" and "\<not> is_space (hd n)" and "\<not> is_space (last n)"
    and "map py_lower n \<notin> set skip_patterns"
proof -
  let ?n = "str_strip (str_strip_chars [dquote] (str_strip s))"
  from assms have n: "n = ?n" and ne: "?n \<noteq> []" and sk: "map py_lower ?n \<notin> set skip_patterns"
    by (auto simp: clean_author_name_cases Let_def split: if_splits)
  from n ne show "n \<noteq> []" by simp
  from ne n show "\<not> is_space (hd n)" and "\<not> is_space (last n)"
    using str_strip_ends by blast+
  from sk n show "map py_lower n \<notin> set skip_patterns" by simp
qed

text \<open>
  Claim C4. \<^const>\<open>clean_author_name\<close> returns no name exactly when the cleaned name is
  empty or, lower-cased, is one of the five skip-list entries as a whole; the pattern's
  \<^verbatim>\<open>$\<close> never meets its trailing-newline case because the name is trimmed.
  \<^verbatim>\<open>Various\<close>, \<^verbatim>\<open>UNKNOWN\<close>, \<^verbatim>\<open> Anonymous \<close>, \<^verbatim>\<open>Editor\<close> and \<^verbatim>\<open>Translator\<close> give no
  name, \<^verbatim>\<open>Editor Smith\<close> is kept as it is.
\<close>

theorem clean_author_name_skip_list:
  "(clean_author_name (PStr s) = None \<longleftrightarrow>
      (let n = str_strip (str_strip_chars [dquote] (str_strip s))
       in n = [] \<or>
          map py_lower n \<in> {''various'', ''unknown'', ''anonymous'', ''editor'', ''translator''}))
   \<and> clean_author_name (PStr ''Various'') = None
   \<and> clean_author_name (PStr ''UNKNOWN'') = None
   \<and> clean_author_name (PStr '' Anonymous '') = None
   \<and> clean_author_name (PStr ''Editor'') = None
   \<and> clean_author_name (PStr ''Translator'') = None
   \<and> clean_author_name (PStr ''Editor Smith'') = Some ''Editor Smith''"
proof -
  have 1: "clean_author_name (PStr s) = None \<longleftrightarrow>
      (let n = str_strip (str_strip_chars [dquote] (str_strip s))
       in n = [] \<or>
          map py_lower n \<in> {''various'', ''unknown'', ''anonymous'', ''editor'', ''translator''})"
    by (simp add: clean_author_name_cases Let_def skip_patterns_def)
  have 2: "clean_author_name (PStr ''Various'') = None" by code_simp
  have 3: "clean_author_name (PStr ''UNKNOWN'') = None" by code_simp
  have 4: "clean_author_name (PStr '' Anonymous '') = None" by code_simp
  have 5: "clean_author_name (PStr ''Editor'') = None" by code_simp
  have 6: "clean_author_name (PStr ''Translator'') = None" by code_simp
  have 7: "clean_author_name (PStr ''Editor Smith'') = Some ''Editor Smith''" by code_simp
  from 1 2 3 4 5 6 7 show ?thesis by blast
qed

text \<open>
  Claim C5 as stated fails: the name \<^verbatim>\<open>" "a" "\<close> is cleaned to \<^verbatim>\<open>"a"\<close>, which still
  carries quotes, and cleaning that again gives \<^verbatim>\<open>a\<close>.
\<close>

theorem clean_author_name_not_idempotent:
  "clean_author_name (PStr [dquote, CHR '' '', dquote, CHR ''a'', dquote, CHR '' '', dquote])
     = Some [dquote, CHR ''a'', dquote]
   \<and> clean_author_name (PStr [dquote, CHR ''a'', dquote]) \<noteq> Some [dquote, CHR ''a'', dquote]"
  by code_simp

text \<open>
  Claim C5, amended. When \<^const>\<open>clean_author_name\<close> returns a name \<open>n\<close>, cleaning \<open>n\<close>
  again returns \<open>n\<close> if and only if \<open>n\<close> neither starts nor ends with a double quote.
\<close>

theorem clean_author_name_idempotent_iff:
  assumes "clean_author_name (PStr s) = Some n"
  shows "clean_author_name (PStr n) = Some n \<longleftrightarrow> hd n \<noteq> dquote \<and> last n \<noteq> dquote"
proof -
  note r = clean_author_name_result [OF assms]
  have sp: "str_strip n = n"
    unfolding str_strip_def using r(2,3) by (intro strip_by_id) simp
  show ?thesis
  proof (cases "hd n \<noteq> dquote \<and> last n \<noteq> dquote")
    case True
    then have "str_strip_chars [dquote] n = n"
      unfolding str_strip_chars_def by (intro strip_by_id) simp
    with sp r(1,4) True show ?thesis
      by (simp add: clean_author_name_cases Let_def)
  next
    case False
    with r(1) have "str_strip_chars [dquote] n \<noteq> n"
      unfolding str_strip_chars_def by (intro strip_by_shrinks) auto
    then have "length (str_strip_chars [dquote] n) < length n"
      unfolding str_strip_chars_def by (rule strip_by_shorter)
    moreover have "length (str_strip (str_strip_chars [dquote] n))
        \<le> length (str_strip_chars [dquote] n)"
      unfolding str_strip_def by (rule length_strip_by)
    ultimately have "str_strip (str_strip_chars [dquote] n) \<noteq> n"
      by auto
    with sp False show ?thesis
      by (auto simp: clean_author_name_cases Let_def)
  qed
qed

theorem clean_author_name_idempotent_iff_witness:
  "clean_author_name (PStr '' Jane Doe '') = Some ''Jane Doe''
   \<and> (clean_author_name (PStr ''Jane Doe'') = Some ''Jane Doe'' \<longleftrightarrow>
        hd ''Jane Doe'' \<noteq> dquote \<and> last ''Jane Doe'' \<noteq> dquote)"
proof -
  have h: "clean_author_name (PStr '' Jane Doe '') = Some ''Jane Doe''" by code_simp
  from h clean_author_name_idempotent_iff [OF h] show ?thesis by simp
qed


section \<open>Name normalization: the quote layers\<close>

text \<open>
  Claim C6 as stated fails: from \<^verbatim>\<open>""a""\<close> the code removes both quotes at each end
  and returns \<^verbatim>\<open>a\<close>, where stripping one layer would leave \<^verbatim>\<open>"a"\<close>.
\<close>

theorem clean_author_name_strips_every_quote:
  "clean_author_name (PStr [dquote, dquote, CHR ''a'', dquote, dquote]) = Some ''a''
   \<and> strip_one_layer (str_strip [dquote, dquote, CHR ''a'', dquote, dquote])
       = [dquote, CHR ''a'', dquote]"
  by code_simp

lemma quote_run_edges:
  assumes "\<forall>c\<in>set inner. is_space c" and "m = 0 \<longrightarrow> inner = []"
    and "rest \<noteq> []" and "\<not> is_space (hd rest)"
  shows "\<not> is_space (hd (replicate m dquote @ inner @ rest))"
proof (cases m)
  case 0
  with assms show ?thesis by simp
next
  case (Suc k)
  then show ?thesis by (simp add: not_space_dquote)
qed

lemma quote_run_edges_last:
  assumes "\<forall>c\<in>set inner. is_space c" and "n = 0 \<longrightarrow> inner = []"
    and "rest \<noteq> []" and "\<not> is_space (last rest)"
  shows "\<not> is_space (last (rest @ inner @ replicate n dquote))"
proof (cases n)
  case 0
  with assms show ?thesis by simp
next
  case (Suc k)
  have "replicate (Suc k) dquote = replicate k dquote @ [dquote]"
    by (simp add: replicate_append_same)
  with Suc show ?thesis by (simp add: not_space_dquote del: replicate_Suc)
qed

lemma space_not_quote: "is_space c \<Longrightarrow> c \<notin> set [dquote]"
  using not_space_dquote by auto

lemma clean_normal_form:
  assumes l: "\<forall>c\<in>set L. is_space c" "m = 0 \<longrightarrow> L = []"
    and r: "\<forall>c\<in>set R. is_space c" "n = 0 \<longrightarrow> R = []"
    and u: "\<forall>c\<in>set u. is_space c" and v: "\<forall>c\<in>set v. is_space c"
    and core: "core \<noteq> []" "\<not> is_space (hd core)" "hd core \<noteq> dquote"
      "\<not> is_space (last core)" "last core \<noteq> dquote"
  shows "str_strip (str_strip_chars [dquote]
           (str_strip (u @ (replicate m dquote @ L @ core @ R @ replicate n dquote) @ v))) = core"
proof -
  let ?Y = "replicate m dquote @ L @ core @ R @ replicate n dquote"
  have hdY: "\<not> is_space (hd ?Y)"
    using quote_run_edges [OF l, of "core @ R @ replicate n dquote"] core by simp
  have lastY: "\<not> is_space (last ?Y)"
    using quote_run_edges_last [OF r, of "replicate m dquote @ L @ core"] core by simp
  have 1: "str_strip (u @ ?Y @ v) = ?Y"
    unfolding str_strip_def using u v hdY lastY by (intro strip_by_eq) auto
  have hdM: "hd (L @ core @ R) \<notin> set [dquote]"
    using hd_append_pred [of L "\<lambda>c. c \<in> set [dquote]" "core @ R"] l(1) core space_not_quote
    by auto
  have lastM: "last (L @ core @ R) \<notin> set [dquote]"
    using last_append_pred [of R "\<lambda>c. c \<in> set [dquote]" "L @ core"] r(1) core space_not_quote
    by auto
  have 2: "str_strip_chars [dquote] (replicate m dquote @ (L @ core @ R) @ replicate n dquote)
      = L @ core @ R"
    unfolding str_strip_chars_def using hdM lastM by (intro strip_by_eq) auto
  have 3: "str_strip (L @ core @ R) = core"
    unfolding str_strip_def using l(1) r(1) core by (intro strip_by_eq) auto
  from 1 2 3 show ?thesis by simp
qed

text \<open>
  Claim C6, amended. After the first trim, step 2 removes every leading and every
  trailing double quote, however many there are, and then trims again: a name wrapped
  in \<open>m\<close> and \<open>n\<close> quotes, with whitespace outside and inside the quotes, is cleaned to
  its core (and rejected if the core is a skip-list entry).
\<close>

theorem clean_author_name_all_quote_layers:
  assumes "\<forall>c\<in>set ws1. is_space c" and "\<forall>c\<in>set ws2. is_space c"
    and "\<forall>c\<in>set ws3. is_space c" and "\<forall>c\<in>set ws4. is_space c"
    and "core \<noteq> []"
    and "\<not> is_space (hd core)" and "hd core \<noteq> dquote"
    and "\<not> is_space (last core)" and "last core \<noteq> dquote"
  shows "clean_author_name
           (PStr (ws1 @ replicate m dquote @ ws3 @ core @ ws4 @ replicate n dquote @ ws2))
         = (if map py_lower core \<in> set skip_patterns then None else Some core)"
proof -
  let ?X = "ws1 @ replicate m dquote @ ws3 @ core @ ws4 @ replicate n dquote @ ws2"
  define L where "L = (if m = 0 then [] else ws3)"
  define u where "u = (if m = 0 then ws1 @ ws3 else ws1)"
  define R where "R = (if n = 0 then [] else ws4)"
  define v where "v = (if n = 0 then ws4 @ ws2 else ws2)"
  have X: "?X = u @ (replicate m dquote @ L @ core @ R @ replicate n dquote) @ v"
    by (simp add: L_def u_def R_def v_def)
  have "str_strip (str_strip_chars [dquote] (str_strip ?X)) = core"
    unfolding X using assms
    by (intro clean_normal_form) (auto simp: L_def u_def R_def v_def)
  with assms(5) show ?thesis
    by (simp add: clean_author_name_cases Let_def)
qed

theorem clean_author_name_all_quote_layers_witness:
  "clean_author_name
     (PStr ('' '' @ replicate 2 dquote @ '' '' @ ''Jane Doe'' @ '''' @ replicate 1 dquote @ '' ''))
   = Some ''Jane Doe''"
proof -
  have sp: "\<forall>c\<in>set '' ''. is_space c" "\<forall>c\<in>set ''''. is_space c"
    by (simp_all add: is_space_def)
  have core: "''Jane Doe'' \<noteq> []" "\<not> is_space (hd ''Jane Doe'')" "hd ''Jane Doe'' \<noteq> dquote"
    "\<not> is_space (last ''Jane Doe'')" "last ''Jane Doe'' \<noteq> dquote"
    by (simp_all add: is_space_def dquote_def)
  have sk: "map py_lower ''Jane Doe'' \<notin> set skip_patterns" by code_simp
  from clean_author_name_all_quote_layers
         [OF sp(1) sp(1) sp(1) sp(2) core, of 2 1] sk
  show ?thesis by simp
qed

section \<open>The aggregate under one attribution\<close>

lemma bind_err_Inr [simp]: "bind_err (Inr x) f = f x"
  by (simp add: bind_err_def)

lemma bind_err_Inl [simp]: "bind_err (Inl e) f = Inl e"
  by (simp add: bind_err_def)

lemma bind_err_eq_Inr:
  "bind_err m f = Inr y \<longleftrightarrow> (\<exists>x. m = Inr x \<and> f x = Inr y)"
  by (cases m) auto

lemma dd_update_twice: "dd_update k g (dd_update k f a) = dd_update k (\<lambda>e. g (f e)) a"
  by (induction a) auto

lemma attribute_eq:
  "attribute (k, b) a =
     dd_update k (\<lambda>e. e\<lparr>books := books e @ [b], total_books := total_books e + 1\<rparr>) a"
  by (simp add: attribute_def incr_total_def append_book_def dd_update_twice)

lemma map_of_dd_update:
  "map_of (dd_update k f a) =
     (map_of a)(k \<mapsto> f (case map_of a k of None \<Rightarrow> default_entry | Some e \<Rightarrow> e))"
  by (induction a) (auto simp: fun_eq_iff)

lemma keys_dd_update:
  "map fst (dd_update k f a) = (if k \<in> set (map fst a) then map fst a else map fst a @ [k])"
  by (induction a) force+

lemma distinct_dd_update: "distinct (map fst a) \<Longrightarrow> distinct (map fst (dd_update k f a))"
  by (simp add: keys_dd_update)

lemma list_all_dd_update:
  assumes "list_all P a" and "P (k, f default_entry)"
    and "\<And>e. P (k, e) \<Longrightarrow> P (k, f e)"
  shows "list_all P (dd_update k f a)"
  using assms(1) by (induction a) (auto intro: assms(2,3))

lemma counts_agree_attribute: "counts_agree a \<Longrightarrow> counts_agree (attribute kb a)"
  unfolding counts_agree_def
  by (cases kb) (auto simp: attribute_eq default_entry_def intro!: list_all_dd_update)

lemma no_empty_entry_attribute: "no_empty_entry a \<Longrightarrow> no_empty_entry (attribute kb a)"
  unfolding no_empty_entry_def
  by (cases kb) (auto simp: attribute_eq default_entry_def intro!: list_all_dd_update)

lemma sum_total_dd_update:
  assumes "\<And>e. total_books (f e) = total_books e + d"
  shows "sum_total (dd_update k f a) = sum_total a + d"
  by (induction a) (auto simp: sum_total_def assms default_entry_def)

lemma sum_total_attribute: "sum_total (attribute kb a) = sum_total a + 1"
  by (cases kb) (simp add: attribute_eq sum_total_dd_update)

lemma entry_books_attribute:
  "entry_books (attribute (k, b) a) k' =
     (if k' = k then entry_books a k @ [b] else entry_books a k')"
  by (auto simp: entry_books_def attribute_eq map_of_dd_update default_entry_def
      split: option.splits)

lemma entry_total_attribute:
  "entry_total (attribute (k, b) a) k' =
     (if k' = k then entry_total a k + 1 else entry_total a k')"
  by (auto simp: entry_total_def attribute_eq map_of_dd_update default_entry_def
      split: option.splits)

lemma distinct_attribute: "distinct (map fst a) \<Longrightarrow> distinct (map fst (attribute kb a))"
  by (cases kb) (simp add: attribute_eq distinct_dd_update)

lemma keys_attribute:
  "set (map fst (attribute kb a)) = insert (fst kb) (set (map fst a))"
  by (cases kb) (auto simp: attribute_eq keys_dd_update)

section \<open>A row, and a run of rows, is the fold of its attributions\<close>

lemma process_additional_fold:
  "process_additional r t xs a =
     bind_err (additional_attributions r t xs) (\<lambda>atts. Inr (fold attribute atts a))"
proof (induction r t xs a rule: process_additional.induct)
  case (1 r t a)
  show ?case by simp
next
  case (2 r t rest a)
  then show ?case by simp
next
  case (3 r t n rest a)
  show ?case
  proof (cases "n \<noteq> []")
    case False
    with 3 show ?thesis by simp
  next
    case True
    show ?thesis
    proof (cases "additional_book r t")
      case (Inl e)
      with True show ?thesis by simp
    next
      case (Inr b)
      with True 3(1) [OF True, of b] show ?thesis
        by (cases "additional_attributions r t rest") (simp_all add: attribute_def)
    qed
  qed
qed

lemma process_row_fold:
  "process_row r a = bind_err (row_attributions r) (\<lambda>atts. Inr (fold attribute atts a))"
proof (cases "py_strip (row_get r ''Title'' '''')")
  case (Inl e)
  then show ?thesis by (simp add: process_row_def row_attributions_def)
next
  case t: (Inr t)
  show ?thesis
  proof (cases "py_strip (row_get r ''Additional Authors'' '''')")
    case (Inl e)
    with t show ?thesis by (simp add: process_row_def row_attributions_def)
  next
    case ad: (Inr ad)
    let ?xs = "map (\<lambda>name. clean_author_name (PStr name)) (str_split CHR '','' ad)"
    have tail: "\<And>a1. (if ad \<noteq> [] then process_additional r t ?xs a1 else Inr a1) =
        bind_err (if ad \<noteq> [] then additional_attributions r t ?xs else Inr [])
          (\<lambda>ys. Inr (fold attribute ys a1))"
      by (simp add: process_additional_fold)
    show ?thesis
    proof (cases "clean_author_name (row_get r ''Author'' '''')")
      case None
      with t ad tail show ?thesis
        by (cases "if ad \<noteq> [] then additional_attributions r t ?xs else Inr []")
          (simp_all add: process_row_def row_attributions_def)
    next
      case (Some n)
      show ?thesis
      proof (cases "n \<noteq> []")
        case False
        with Some t ad tail show ?thesis
          by (cases "if ad \<noteq> [] then additional_attributions r t ?xs else Inr []")
            (simp_all add: process_row_def row_attributions_def)
      next
        case True
        show ?thesis
        proof (cases "main_book r t")
          case (Inl e)
          with True Some t ad show ?thesis
            by (simp add: process_row_def row_attributions_def)
        next
          case (Inr b)
          with True Some t ad tail show ?thesis
            by (cases "if ad \<noteq> [] then additional_attributions r t ?xs else Inr []")
              (simp_all add: process_row_def row_attributions_def attribute_def)
        qed
      qed
    qed
  qed
qed

lemma process_rows_fold:
  "process_rows rows a =
     bind_err (rows_attributions rows) (\<lambda>atts. Inr (fold attribute atts a))"
proof (induction rows arbitrary: a)
  case Nil
  show ?case by simp
next
  case (Cons r rs)
  show ?case
  proof (cases "row_attributions r")
    case (Inl e)
    then show ?thesis by (simp add: process_row_fold)
  next
    case (Inr xs)
    with Cons [of "fold attribute xs a"] show ?thesis
      by (cases "rows_attributions rs") (simp_all add: process_row_fold)
  qed
qed

lemma clean_author_name_nonempty: "clean_author_name v = Some n \<Longrightarrow> n \<noteq> []"
proof (cases v)
  case PNone
  assume "clean_author_name v = Some n"
  with PNone show ?thesis by (simp add: clean_author_name_def)
next
  case (PStr s)
  assume "clean_author_name v = Some n"
  with PStr show ?thesis using clean_author_name_result(1) by blast
qed

lemma additional_attributions_names:
  "additional_attributions r t (map (\<lambda>p. clean_author_name (PStr p)) pieces) = Inr atts
   \<Longrightarrow> map fst atts = List.map_filter (\<lambda>p. clean_author_name (PStr p)) pieces"
proof (induction pieces arbitrary: atts)
  case Nil
  then show ?case by simp
next
  case (Cons p ps)
  show ?case
  proof (cases "clean_author_name (PStr p)")
    case None
    with Cons show ?thesis by simp
  next
    case (Some n)
    then have ne: "n \<noteq> []" by (rule clean_author_name_nonempty)
    from Cons.prems Some ne obtain b xs where
      "additional_attributions r t (map (\<lambda>p. clean_author_name (PStr p)) ps) = Inr xs"
      and "atts = (n, b) # xs"
      by (auto simp: bind_err_eq_Inr)
    with Cons.IH [of xs] Some show ?thesis by simp
  qed
qed

lemma split_empty_no_names:
  "List.map_filter (\<lambda>p. clean_author_name (PStr p)) (str_split c []) = []"
  by (simp add: clean_author_name_def)

lemma row_attributions_names:
  assumes "row_attributions r = Inr atts"
  shows "map fst atts = row_author_names r"
proof -
  from assms obtain t ad xs ys where
    t: "py_strip (row_get r ''Title'' '''') = Inr t"
    and ad: "py_strip (row_get r ''Additional Authors'' '''') = Inr ad"
    and xs: "(case clean_author_name (row_get r ''Author'' '''') of
                None \<Rightarrow> Inr []
              | Some n \<Rightarrow>
                 if n \<noteq> [] then bind_err (main_book r t) (\<lambda>b. Inr [(n, b)]) else Inr []) = Inr xs"
    and ys: "(if ad \<noteq> []
              then additional_attributions r t
                     (map (\<lambda>name. clean_author_name (PStr name)) (str_split CHR '','' ad))
              else Inr []) = Inr ys"
    and atts: "atts = xs @ ys"
    unfolding row_attributions_def by (auto simp: bind_err_eq_Inr)
  from ad obtain s where s: "row_get r ''Additional Authors'' '''' = PStr s" "ad = str_strip s"
    by (auto simp: py_strip_def split: pyval.splits)
  have 1: "map fst xs =
      (case clean_author_name (row_get r ''Author'' '''') of None \<Rightarrow> [] | Some n \<Rightarrow> [n])"
    using xs clean_author_name_nonempty
    by (auto simp: bind_err_eq_Inr split: option.splits if_splits)
  have 2: "map fst ys =
      List.map_filter (\<lambda>p. clean_author_name (PStr p)) (str_split CHR '','' ad)"
  proof (cases "ad = []")
    case True
    with ys split_empty_no_names [of "CHR '',''"] show ?thesis by auto
  next
    case False
    with ys show ?thesis by (simp add: additional_attributions_names)
  qed
  from 1 2 s atts show ?thesis by (simp add: row_author_names_def)
qed

lemma rows_attributions_names:
  "rows_attributions rows = Inr atts \<Longrightarrow> map fst atts = concat (map row_author_names rows)"
proof (induction rows arbitrary: atts)
  case Nil
  then show ?case by simp
next
  case (Cons r rs)
  from Cons.prems obtain xs ys where
    "row_attributions r = Inr xs" "rows_attributions rs = Inr ys" "atts = xs @ ys"
    by (auto simp: bind_err_eq_Inr)
  with Cons.IH [of ys] show ?case by (simp add: row_attributions_names)
qed

lemma rows_attributions_append:
  "rows_attributions (xs @ ys) =
     bind_err (rows_attributions xs) (\<lambda>a.
       bind_err (rows_attributions ys) (\<lambda>b. Inr (a @ b)))"
proof (induction xs)
  case Nil
  show ?case by (cases "rows_attributions ys") simp_all
next
  case (Cons x xs)
  show ?case
  proof (cases "row_attributions x")
    case (Inl e)
    then show ?thesis by simp
  next
    case (Inr ax)
    with Cons show ?thesis
      by (cases "rows_attributions xs"; cases "rows_attributions ys") simp_all
  qed
qed

section \<open>Folding attributions\<close>

lemma attribution_count_length:
  "length (concat (map row_author_names rows)) = attribution_count rows"
  by (simp add: attribution_count_def length_concat comp_def)

lemma fold_attribute_entry:
  "\<exists>new. entry_books (fold attribute atts a) k = entry_books a k @ new
       \<and> length new = count_list (map fst atts) k
       \<and> entry_total (fold attribute atts a) k
           = entry_total a k + int (count_list (map fst atts) k)"
proof (induction atts arbitrary: a)
  case Nil
  show ?case by simp
next
  case (Cons kb atts)
  obtain k' b where kb: "kb = (k', b)" by (cases kb)
  from Cons [of "attribute kb a"] obtain new where
    new: "entry_books (fold attribute atts (attribute kb a)) k
            = entry_books (attribute kb a) k @ new"
      "length new = count_list (map fst atts) k"
      "entry_total (fold attribute atts (attribute kb a)) k
         = entry_total (attribute kb a) k + int (count_list (map fst atts) k)"
    by blast
  show ?case
  proof (cases "k = k'")
    case True
    with new kb show ?thesis
      by (intro exI [of _ "b # new"]) (simp add: entry_books_attribute entry_total_attribute)
  next
    case False
    with new kb show ?thesis
      by (intro exI [of _ new]) (simp add: entry_books_attribute entry_total_attribute)
  qed
qed

lemma fold_attribute_counts_agree:
  "counts_agree a \<Longrightarrow> counts_agree (fold attribute atts a)"
  by (induction atts arbitrary: a) (simp_all add: counts_agree_attribute)

lemma fold_attribute_no_empty_entry:
  "no_empty_entry a \<Longrightarrow> no_empty_entry (fold attribute atts a)"
  by (induction atts arbitrary: a) (simp_all add: no_empty_entry_attribute)

lemma fold_attribute_sum_total:
  "sum_total (fold attribute atts a) = sum_total a + int (length atts)"
  by (induction atts arbitrary: a) (simp_all add: sum_total_attribute)

lemma fold_attribute_distinct:
  "distinct (map fst a) \<Longrightarrow> distinct (map fst (fold attribute atts a))"
  by (induction atts arbitrary: a) (simp_all add: distinct_attribute)

lemma fold_attribute_keys:
  "set (map fst (fold attribute atts a)) = set (map fst a) \<union> set (map fst atts)"
  by (induction atts arbitrary: a) (simp_all add: keys_attribute del: set_map)

lemma extract_Inr:
  "extract_authors_from_goodreads rows = Inr a \<longleftrightarrow>
     rows \<noteq> [] \<and> (\<exists>atts. rows_attributions rows = Inr atts \<and> a = fold attribute atts [])"
  by (auto simp: extract_authors_from_goodreads_def process_rows_fold bind_err_eq_Inr
      split: if_splits)

section \<open>The ranked views\<close>

lemma sum_list_insort_key:
  "sum_list (map f (insort_key g x xs)) = f x + sum_list (map f xs)"
  for f :: "'a \<Rightarrow> int"
  by (induction xs) auto

lemma sum_list_sort_key:
  "sum_list (map f (sort_key g xs)) = sum_list (map f xs)"
  for f :: "'a \<Rightarrow> int"
  by (induction xs) (auto simp: sum_list_insort_key)

lemma sum_list_rev_map: "sum_list (map f (rev xs)) = sum_list (map f xs)"
  for f :: "'a \<Rightarrow> int"
  by (simp add: rev_map [symmetric])

lemma set_sorted_authors: "set (sorted_authors a) = set a"
  by (simp add: sorted_authors_def)

lemma length_sorted_authors: "length (sorted_authors a) = length a"
  by (simp add: sorted_authors_def)

lemma sum_total_sorted_authors: "sum_total (sorted_authors a) = sum_total a"
  by (simp add: sum_total_def sorted_authors_def sum_list_rev_map sum_list_sort_key)

lemma distinct_map_insort_key:
  "distinct (map g (insort_key f x xs)) \<longleftrightarrow> g x \<notin> g ` set xs \<and> distinct (map g xs)"
  by (induction xs) (auto simp: set_insort_key)

lemma distinct_map_sort_key: "distinct (map g (sort_key f xs)) \<longleftrightarrow> distinct (map g xs)"
  by (induction xs) (auto simp: distinct_map_insort_key)

lemma distinct_sorted_authors:
  "distinct (map fst a) \<Longrightarrow> distinct (map fst (sorted_authors a))"
  by (simp add: sorted_authors_def distinct_map_sort_key rev_map [symmetric])

lemma sorted_authors_descending:
  "sorted_wrt (\<lambda>x y. total_books (snd y) \<le> total_books (snd x)) (sorted_authors a)"
proof -
  have "sorted (map (\<lambda>x. total_books (snd x)) (sort_key (\<lambda>x. total_books (snd x)) (rev a)))"
    by (rule sorted_sort_key)
  then have "sorted_wrt (\<lambda>x y. total_books (snd x) \<le> total_books (snd y))
      (sort_key (\<lambda>x. total_books (snd x)) (rev a))"
    by (simp add: sorted_map)
  then show ?thesis
    unfolding sorted_authors_def by (simp add: sorted_wrt_rev)
qed

lemma add_authors_map:
  "add_authors xs out =
     out @ map (\<lambda>(n, e). \<lparr>name = n, book_count = total_books e,
                          first_books = take 10 (books e)\<rparr>) xs"
  by (induction xs out rule: add_authors.induct) auto

lemma detailed_names:
  "map name (authors (create_cache_warming_format a)) = map fst (sorted_authors a)"
  by (simp add: create_cache_warming_format_def Let_def add_authors_map comp_def case_prod_beta)

lemma simple_names: "create_simple_author_list a = map fst (sorted_authors a)"
  by (simp add: create_simple_author_list_def case_prod_beta)

lemma tabular_names:
  "map fst (tl (main_csv_rows a)) = map CStr (map fst (sorted_authors a))"
  by (simp add: main_csv_rows_def comp_def case_prod_beta)

lemma appears_before_sorted:
  assumes "sorted_wrt R xs" and "x \<in> set xs" and "y \<in> set xs"
    and "\<not> R y x" and "\<And>z. R z z"
  shows "appears_before (g x) (g y) (map g xs)"
  using assms(1,2,3)
proof (induction xs)
  case Nil
  then show ?case by simp
next
  case (Cons z zs)
  show ?case
  proof (cases "z = x")
    case True
    from assms(4,5) have "y \<noteq> x" by auto
    with True Cons.prems show ?thesis by auto
  next
    case False
    show ?thesis
    proof (cases "z = y")
      case True
      with False Cons.prems assms(4) show ?thesis by auto
    next
      case zy: False
      with False Cons show ?thesis by auto
    qed
  qed
qed

lemma appears_before_mem: "appears_before u v ws \<Longrightarrow> u \<in> set ws \<and> v \<in> set ws"
  by (induction ws) auto

lemma appears_before_antisym:
  "distinct xs \<Longrightarrow> appears_before x y xs \<Longrightarrow> \<not> appears_before y x xs"
proof (induction xs)
  case Nil
  then show ?case by simp
next
  case (Cons z zs)
  then show ?case using appears_before_mem [of x y zs] appears_before_mem [of y x zs]
    by auto
qed

lemma appears_before_map_inj:
  "inj f \<Longrightarrow> appears_before (f x) (f y) (map f xs) = appears_before x y xs"
  by (induction xs) (auto simp: inj_eq)

section \<open>Rows whose cells are all strings never raise\<close>

lemma py_strip_string: "v \<noteq> PNone \<Longrightarrow> \<exists>s. py_strip v = Inr s"
  by (cases v) (simp_all add: py_strip_def)

lemma row_get_string: "\<forall>k. r k \<noteq> Some PNone \<Longrightarrow> row_get r key dflt \<noteq> PNone"
  by (auto simp: row_get_def split: option.splits)

lemma process_additional_returns:
  assumes "\<forall>k. r k \<noteq> Some PNone"
  shows "\<exists>a'. process_additional r t xs a = Inr a'"
proof -
  from assms obtain s where "py_strip (row_get r ''ISBN13'' '''') = Inr s"
    using py_strip_string row_get_string by blast
  then obtain b where b: "additional_book r t = Inr b"
    by (simp add: additional_book_def)
  show ?thesis
  proof (induction xs arbitrary: a)
    case Nil
    show ?case by simp
  next
    case (Cons x xs)
    then show ?case by (cases x) (simp_all add: b)
  qed
qed

lemma process_row_returns:
  assumes "\<forall>k. r k \<noteq> Some PNone"
  shows "\<exists>a'. process_row r a = Inr a'"
proof -
  from assms obtain t where t: "py_strip (row_get r ''Title'' '''') = Inr t"
    using py_strip_string row_get_string by blast
  from assms obtain ad where ad: "py_strip (row_get r ''Additional Authors'' '''') = Inr ad"
    using py_strip_string row_get_string by blast
  from assms obtain s where "py_strip (row_get r ''ISBN13'' '''') = Inr s"
    using py_strip_string row_get_string by blast
  then obtain b where b: "main_book r t = Inr b"
    by (simp add: main_book_def)
  from t ad b process_additional_returns [OF assms] show ?thesis
    by (auto simp: process_row_def Let_def split: option.splits)
qed

lemma process_rows_returns:
  "\<forall>r\<in>set rows. \<forall>k. r k \<noteq> Some PNone \<Longrightarrow> \<exists>a'. process_rows rows a = Inr a'"
proof (induction rows arbitrary: a)
  case Nil
  show ?case by simp
next
  case (Cons r rs)
  then obtain a1 where "process_row r a = Inr a1"
    using process_row_returns [of r a] by auto
  with Cons show ?case by simp
qed

lemma extract_returns_on_string_rows:
  assumes "rows \<noteq> []" and "\<forall>r\<in>set rows. \<forall>k. r k \<noteq> Some PNone"
  shows "\<exists>a. extract_authors_from_goodreads rows = Inr a"
  using assms(1) process_rows_returns [OF assms(2), of "[]"]
  by (auto simp: extract_authors_from_goodreads_def)

section \<open>Attributions, counts and sums\<close>

lemma sum_total_Nil: "sum_total [] = 0"
  by (simp add: sum_total_def)

lemma process_rows_sum_total:
  assumes "process_rows rs [] = Inr x"
  shows "sum_total x = int (attribution_count rs)"
proof -
  from assms obtain atts where atts: "rows_attributions rs = Inr atts"
    and x: "x = fold attribute atts []"
    by (auto simp: process_rows_fold bind_err_eq_Inr)
  from atts have "map fst atts = concat (map row_author_names rs)"
    by (rule rows_attributions_names)
  then have "length atts = attribution_count rs"
    by (metis length_map attribution_count_length)
  with x show ?thesis by (simp add: fold_attribute_sum_total sum_total_Nil)
qed

lemma process_rows_prefix:
  assumes "process_rows rows [] = Inr a"
  shows "\<exists>ak. process_rows (take k rows) [] = Inr ak"
proof -
  from assms obtain atts where "rows_attributions rows = Inr atts"
    by (auto simp: process_rows_fold bind_err_eq_Inr)
  then have "rows_attributions (take k rows @ drop k rows) = Inr atts" by simp
  then obtain xs where "rows_attributions (take k rows) = Inr xs"
    unfolding rows_attributions_append by (auto simp: bind_err_eq_Inr)
  then show ?thesis by (simp add: process_rows_fold)
qed

lemma attribution_count_take_mono:
  assumes "j \<le> k"
  shows "attribution_count (take j rows) \<le> attribution_count (take k rows)"
proof -
  from assms have "take k rows = take j rows @ take (k - j) (drop j rows)"
    by (metis le_add_diff_inverse take_add)
  then show ?thesis by (simp add: attribution_count_def)
qed

lemma extract_process_rows:
  "extract_authors_from_goodreads rows = Inr a \<Longrightarrow> process_rows rows [] = Inr a"
  by (auto simp: extract_authors_from_goodreads_def bind_err_eq_Inr split: if_splits)

lemma all_books_sum_total:
  "all_books (metadata (create_cache_warming_format a)) = sum_total a"
  using sum_total_sorted_authors [of a]
  by (simp add: create_cache_warming_format_def Let_def sum_total_def)

lemma total_authors_length:
  "total_authors (metadata (create_cache_warming_format a)) = int (length a)"
  by (simp add: create_cache_warming_format_def Let_def length_sorted_authors)

text \<open>
  Claim C1, amended. A record appends one book reference and adds one to the count for
  every valid attribution it makes, counted with multiplicity: a name that occurs \<open>c\<close>
  times among the record's valid author names (primary author and valid additional
  authors) receives \<open>c\<close> new book references after the ones it had, and its count grows
  by \<open>c\<close>.
\<close>

theorem record_attributions_appended:
  assumes "process_row r a = Inr a'"
  shows "\<exists>new. entry_books a' k = entry_books a k @ new
           \<and> length new = count_list (row_author_names r) k
           \<and> entry_total a' k = entry_total a k + int (count_list (row_author_names r) k)"
proof -
  from assms obtain atts where atts: "row_attributions r = Inr atts"
    and a': "a' = fold attribute atts a"
    by (auto simp: process_row_fold bind_err_eq_Inr)
  from atts have "map fst atts = row_author_names r" by (rule row_attributions_names)
  with fold_attribute_entry [of atts a k] a' show ?thesis by simp
qed

text \<open>
  Claim C2. The aggregate returned is the fold of the attributions of the rows, an
  attribution being the append and the increment the code performs together; after
  every prefix of the attributions, and in the aggregate returned, each entry's
  \<^const>\<open>total_books\<close> is the length of its \<^const>\<open>books\<close>.
\<close>

theorem total_books_equals_length_of_books:
  assumes "extract_authors_from_goodreads rows = Inr a"
  shows "\<exists>atts. rows_attributions rows = Inr atts \<and> a = fold attribute atts []
           \<and> (\<forall>n. \<forall>(k, e)\<in>set (fold attribute (take n atts) []).
                  total_books e = int (length (books e)))
           \<and> (\<forall>(k, e)\<in>set a. total_books e = int (length (books e)))"
proof -
  from assms obtain atts where atts: "rows_attributions rows = Inr atts"
    and a: "a = fold attribute atts []"
    by (auto simp: extract_Inr)
  have init: "counts_agree []" by (simp add: counts_agree_def)
  have "\<And>xs. counts_agree (fold attribute xs [])"
    using init by (rule fold_attribute_counts_agree)
  then have "\<And>xs. \<forall>(k, e)\<in>set (fold attribute xs []). total_books e = int (length (books e))"
    by (simp add: counts_agree_def list_all_iff)
  with atts a show ?thesis by blast
qed

text \<open>
  Claim C3. After every prefix of the records the sum of \<^const>\<open>total_books\<close> is the
  number of valid attributions of that prefix; it never decreases from a prefix to a
  longer one; after \<open>n\<close> attributions it is exactly \<open>n\<close>; the metadata of the detailed
  view report this sum for the whole input and the number of distinct author names.
\<close>

theorem sum_total_counts_attributions:
  assumes "extract_authors_from_goodreads rows = Inr a"
  shows "(\<forall>k \<le> length rows. \<exists>ak. process_rows (take k rows) [] = Inr ak
              \<and> sum_total ak = int (attribution_count (take k rows)))
       \<and> (\<forall>j k aj ak. j \<le> k \<and> process_rows (take j rows) [] = Inr aj
              \<and> process_rows (take k rows) [] = Inr ak \<longrightarrow> sum_total aj \<le> sum_total ak)
       \<and> (\<exists>atts. rows_attributions rows = Inr atts
              \<and> length atts = attribution_count rows
              \<and> (\<forall>n \<le> length atts. sum_total (fold attribute (take n atts) []) = int n))
       \<and> all_books (metadata (create_cache_warming_format a)) = int (attribution_count rows)
       \<and> total_authors (metadata (create_cache_warming_format a))
           = int (card (set (concat (map row_author_names rows))))"
proof -
  from assms have pr: "process_rows rows [] = Inr a" by (rule extract_process_rows)
  from assms obtain atts where atts: "rows_attributions rows = Inr atts"
    and a: "a = fold attribute atts []"
    by (auto simp: extract_Inr)
  from atts have names: "map fst atts = concat (map row_author_names rows)"
    by (rule rows_attributions_names)
  have 1: "\<forall>k \<le> length rows. \<exists>ak. process_rows (take k rows) [] = Inr ak
              \<and> sum_total ak = int (attribution_count (take k rows))"
    using process_rows_prefix [OF pr] process_rows_sum_total by blast
  have 2: "\<forall>j k aj ak. j \<le> k \<and> process_rows (take j rows) [] = Inr aj
              \<and> process_rows (take k rows) [] = Inr ak \<longrightarrow> sum_total aj \<le> sum_total ak"
    using attribution_count_take_mono [of _ _ rows]
    by (auto simp: process_rows_sum_total)
  have len: "length atts = attribution_count rows"
    using names by (metis length_map attribution_count_length)
  have 3: "\<forall>n \<le> length atts. sum_total (fold attribute (take n atts) []) = int n"
    by (simp add: fold_attribute_sum_total sum_total_Nil)
  have 4: "all_books (metadata (create_cache_warming_format a)) = int (attribution_count rows)"
    using process_rows_sum_total [OF pr] by (simp add: all_books_sum_total)
  have "distinct (map fst a)" unfolding a by (rule fold_attribute_distinct) simp
  then have "length a = card (set (map fst a))"
    by (metis distinct_card length_map)
  also have "set (map fst a) = set (concat (map row_author_names rows))"
    unfolding a using names by (simp add: fold_attribute_keys del: set_map set_concat)
  finally have 5: "total_authors (metadata (create_cache_warming_format a))
      = int (card (set (concat (map row_author_names rows))))"
    by (simp add: total_authors_length)
  from 1 2 3 4 5 atts len show ?thesis by blast
qed

section \<open>Concrete runs\<close>

text \<open>
  Claim C1 as stated fails: a record that names \<^verbatim>\<open>Jane Doe\<close> as primary author and again
  as additional author names one distinct author, and her entry receives two book
  references and a count of two.
\<close>

theorem repeated_author_attributed_twice:
  "extract_authors_from_goodreads
     [map_of [(''Title'', PStr ''Dune''), (''Author'', PStr ''Jane Doe''),
              (''Additional Authors'', PStr ''Jane Doe''), (''ISBN13'', PStr ''42'')]]
   = Inr [(''Jane Doe'',
           \<lparr>books =
              [\<lparr>title = ''Dune'', isbn = ''42'', rating = PStr ''0'',
                shelf = PStr ''unknown'', role = None\<rparr>,
               \<lparr>title = ''Dune'', isbn = ''42'', rating = PStr ''0'',
                shelf = PStr ''unknown'', role = Some ''additional_author''\<rparr>],
            total_books = 2\<rparr>)]
   \<and> remdups (row_author_names
        (map_of [(''Title'', PStr ''Dune''), (''Author'', PStr ''Jane Doe''),
                 (''Additional Authors'', PStr ''Jane Doe''), (''ISBN13'', PStr ''42'')]))
       = [''Jane Doe'']"
  by code_simp

theorem record_attributions_appended_witness:
  "\<exists>new. entry_books
            [(''Jane Doe'',
              \<lparr>books = [\<lparr>title = ''Dune'', isbn = ''42'', rating = PStr ''0'',
                         shelf = PStr ''unknown'', role = None\<rparr>],
               total_books = 1\<rparr>),
             (''John Roe'',
              \<lparr>books = [\<lparr>title = ''Dune'', isbn = ''42'', rating = PStr ''0'',
                         shelf = PStr ''unknown'', role = Some ''additional_author''\<rparr>],
               total_books = 1\<rparr>)] ''John Roe''
          = entry_books [] ''John Roe'' @ new
        \<and> length new = 1"
proof -
  let ?r = "map_of [(''Title'', PStr ''Dune''), (''Author'', PStr ''Jane Doe''),
                    (''Additional Authors'', PStr ''John Roe, Unknown''),
                    (''ISBN13'', PStr ''42'')]"
  have h: "process_row ?r [] =
      Inr [(''Jane Doe'',
              \<lparr>books = [\<lparr>title = ''Dune'', isbn = ''42'', rating = PStr ''0'',
                         shelf = PStr ''unknown'', role = None\<rparr>],
               total_books = 1\<rparr>),
             (''John Roe'',
              \<lparr>books = [\<lparr>title = ''Dune'', isbn = ''42'', rating = PStr ''0'',
                         shelf = PStr ''unknown'', role = Some ''additional_author''\<rparr>],
               total_books = 1\<rparr>)]"
    by code_simp
  have c: "count_list (row_author_names ?r) ''John Roe'' = 1" by code_simp
  from record_attributions_appended [OF h, of "''John Roe''"] c show ?thesis by auto
qed

theorem total_books_equals_length_of_books_witness:
  "counts_agree
     [(''Jane Doe'',
       \<lparr>books = [\<lparr>title = ''Dune'', isbn = ''42'', rating = PStr ''0'',
                  shelf = PStr ''unknown'', role = None\<rparr>],
        total_books = 1\<rparr>),
      (''John Roe'',
       \<lparr>books = [\<lparr>title = ''Dune'', isbn = ''42'', rating = PStr ''0'',
                  shelf = PStr ''unknown'', role = Some ''additional_author''\<rparr>],
        total_books = 1\<rparr>)]"
proof -
  have h: "extract_authors_from_goodreads
      [map_of [(''Title'', PStr ''Dune''), (''Author'', PStr ''Jane Doe''),
               (''Additional Authors'', PStr ''John Roe, Unknown''),
               (''ISBN13'', PStr ''42'')]] =
      Inr [(''Jane Doe'',
              \<lparr>books = [\<lparr>title = ''Dune'', isbn = ''42'', rating = PStr ''0'',
                         shelf = PStr ''unknown'', role = None\<rparr>],
               total_books = 1\<rparr>),
             (''John Roe'',
              \<lparr>books = [\<lparr>title = ''Dune'', isbn = ''42'', rating = PStr ''0'',
                         shelf = PStr ''unknown'', role = Some ''additional_author''\<rparr>],
               total_books = 1\<rparr>)]"
    by code_simp
  from total_books_equals_length_of_books [OF h] show ?thesis
    unfolding counts_agree_def list_all_iff by blast
qed

theorem sum_total_counts_attributions_witness:
  "all_books (metadata (create_cache_warming_format
      [(''Jane Doe'',
              \<lparr>books = [\<lparr>title = ''Dune'', isbn = ''42'', rating = PStr ''0'',
                         shelf = PStr ''unknown'', role = None\<rparr>],
               total_books = 1\<rparr>),
             (''John Roe'',
              \<lparr>books = [\<lparr>title = ''Dune'', isbn = ''42'', rating = PStr ''0'',
                         shelf = PStr ''unknown'', role = Some ''additional_author''\<rparr>],
               total_books = 1\<rparr>)])) = 2"
proof -
  let ?rows = "[map_of [(''Title'', PStr ''Dune''), (''Author'', PStr ''Jane Doe''),
               (''Additional Authors'', PStr ''John Roe, Unknown''),
               (''ISBN13'', PStr ''42'')]]"
  have h: "extract_authors_from_goodreads ?rows =
      Inr [(''Jane Doe'',
              \<lparr>books = [\<lparr>title = ''Dune'', isbn = ''42'', rating = PStr ''0'',
                         shelf = PStr ''unknown'', role = None\<rparr>],
               total_books = 1\<rparr>),
             (''John Roe'',
              \<lparr>books = [\<lparr>title = ''Dune'', isbn = ''42'', rating = PStr ''0'',
                         shelf = PStr ''unknown'', role = Some ''additional_author''\<rparr>],
               total_books = 1\<rparr>)]"
    by code_simp
  have c: "attribution_count ?rows = 2" by code_simp
  from sum_total_counts_attributions [OF h] c show ?thesis by simp
qed

text \<open>
  Claim C7 fails on the code: for the ISBN cell \<^verbatim>\<open>="9780441013593"\<close> the quotes are
  stripped while the equals sign still covers the leading one, so the stored value is
  \<^verbatim>\<open>"9780441013593\<close>, with a quote left in front.
\<close>

theorem excel_isbn_keeps_leading_quote:
  "extract_authors_from_goodreads
     [map_of [(''Title'', PStr ''Dune''), (''Author'', PStr ''Frank Herbert''),
              (''ISBN13'', PStr (CHR ''='' # dquote # ''9780441013593'' @ [dquote]))]]
   = Inr [(''Frank Herbert'',
           \<lparr>books =
              [\<lparr>title = ''Dune'', isbn = dquote # ''9780441013593'', rating = PStr ''0'',
                shelf = PStr ''unknown'', role = None\<rparr>],
            total_books = 1\<rparr>)]"
  by code_simp

section \<open>The three views\<close>

lemma detailed_authors_map:
  "authors (create_cache_warming_format a) =
     map (\<lambda>(n, e). \<lparr>name = n, book_count = total_books e, first_books = take 10 (books e)\<rparr>)
       (sorted_authors a)"
  by (simp add: create_cache_warming_format_def Let_def add_authors_map)

lemma inj_CStr: "inj CStr"
  by (simp add: inj_def)

text \<open>
  Claim C8. For two authors of an aggregate, the first with strictly more
  \<^const>\<open>total_books\<close> than the second, the first stands before the second (and not the
  second before the first) in the detailed view, in the simple list and in the table;
  the simple list is the sequence of names of the detailed view, and so is the first
  column of the table. A dictionary holds each key once, hence the first hypothesis.
\<close>

theorem views_rank_alike:
  assumes "distinct (map fst a)" and "(x, ex) \<in> set a" and "(y, ey) \<in> set a"
    and "total_books ey < total_books ex"
  shows "appears_before x y (map name (authors (create_cache_warming_format a)))
       \<and> \<not> appears_before y x (map name (authors (create_cache_warming_format a)))
       \<and> appears_before x y (create_simple_author_list a)
       \<and> \<not> appears_before y x (create_simple_author_list a)
       \<and> appears_before (CStr x) (CStr y) (map fst (tl (main_csv_rows a)))
       \<and> \<not> appears_before (CStr y) (CStr x) (map fst (tl (main_csv_rows a)))
       \<and> create_simple_author_list a = map name (authors (create_cache_warming_format a))
       \<and> map fst (tl (main_csv_rows a)) = map CStr (create_simple_author_list a)"
proof -
  let ?ns = "map fst (sorted_authors a)"
  have "appears_before (fst (x, ex)) (fst (y, ey)) (map fst (sorted_authors a))"
    using sorted_authors_descending [of a] assms(2,3,4)
    by (intro appears_before_sorted
          [where R = "\<lambda>p q. total_books (snd q) \<le> total_books (snd p)"])
       (simp_all add: set_sorted_authors)
  then have fwd: "appears_before x y ?ns" by simp
  from assms(1) have "distinct ?ns" by (rule distinct_sorted_authors)
  then have bwd: "\<not> appears_before y x ?ns" using fwd by (rule appears_before_antisym)
  have csv: "appears_before (CStr x) (CStr y) (map CStr ?ns)"
    "\<not> appears_before (CStr y) (CStr x) (map CStr ?ns)"
    using fwd bwd appears_before_map_inj [OF inj_CStr, of x y ?ns]
      appears_before_map_inj [OF inj_CStr, of y x ?ns]
    by blast+
  from fwd bwd csv show ?thesis
    by (simp add: detailed_names simple_names tabular_names)
qed

theorem views_rank_alike_witness:
  "appears_before ''Bo'' ''Al''
     (create_simple_author_list
        [(''Al'', \<lparr>books = [], total_books = 1\<rparr>), (''Bo'', \<lparr>books = [], total_books = 3\<rparr>),
         (''Cy'', \<lparr>books = [], total_books = 1\<rparr>)])
   \<and> appears_before (CStr ''Bo'') (CStr ''Al'')
     (map fst (tl (main_csv_rows
        [(''Al'', \<lparr>books = [], total_books = 1\<rparr>), (''Bo'', \<lparr>books = [], total_books = 3\<rparr>),
         (''Cy'', \<lparr>books = [], total_books = 1\<rparr>)])))"
proof -
  let ?a = "[(''Al'', \<lparr>books = [], total_books = 1\<rparr>), (''Bo'', \<lparr>books = [], total_books = 3\<rparr>),
             (''Cy'', \<lparr>books = [], total_books = 1\<rparr>)]"
  have d: "distinct (map fst ?a)" by simp
  have x: "(''Bo'', \<lparr>books = [], total_books = 3\<rparr>) \<in> set ?a" by simp
  have y: "(''Al'', \<lparr>books = [], total_books = 1\<rparr>) \<in> set ?a" by simp
  have lt: "total_books \<lparr>books = [], total_books = 1\<rparr> < total_books \<lparr>books = [], total_books = 3\<rparr>"
    by simp
  from views_rank_alike [OF d x y lt] show ?thesis by blast
qed

text \<open>
  Claim C9. In the detailed view an author's books are the first ten of the entry, in
  the order of the entry, and the count reported is the entry's full
  \<^const>\<open>total_books\<close>: fifteen books give ten references and a count of fifteen.
\<close>

theorem detailed_view_first_ten_books:
  assumes "(n, e) \<in> set a"
  shows "\<exists>s\<in>set (authors (create_cache_warming_format a)).
           name s = n \<and> book_count s = total_books e
         \<and> first_books s = take 10 (books e)
         \<and> length (first_books s) = min 10 (length (books e))
         \<and> (length (books e) = 15 \<and> total_books e = 15
              \<longrightarrow> length (first_books s) = 10 \<and> book_count s = 15)"
proof -
  let ?s = "\<lparr>name = n, book_count = total_books e, first_books = take 10 (books e)\<rparr>"
  from assms have "(n, e) \<in> set (sorted_authors a)" by (simp add: set_sorted_authors)
  then have "?s \<in> set (authors (create_cache_warming_format a))"
    unfolding detailed_authors_map by force
  then show ?thesis by (intro bexI [of _ ?s]) auto
qed

theorem detailed_view_first_ten_books_witness:
  "list_ex
     (\<lambda>s. name s = ''Al'' \<and> book_count s = 15
        \<and> first_books s =
            map (\<lambda>i. \<lparr>title = replicate i CHR ''a'', isbn = [], rating = PStr ''0'',
                       shelf = PStr ''read'', role = None\<rparr>) [0..<10])
     (authors (create_cache_warming_format
        [(''Al'',
          \<lparr>books = map (\<lambda>i. \<lparr>title = replicate i CHR ''a'', isbn = [], rating = PStr ''0'',
                              shelf = PStr ''read'', role = None\<rparr>) [0..<15],
           total_books = 15\<rparr>)]))"
proof -
  let ?bs = "map (\<lambda>i. \<lparr>title = replicate i CHR ''a'', isbn = [], rating = PStr ''0'',
                              shelf = PStr ''read'', role = None\<rparr>) [0..<15]"
  let ?e = "\<lparr>books = ?bs, total_books = 15\<rparr>"
  have m: "(''Al'', ?e) \<in> set [(''Al'', ?e)]" by simp
  have t: "take 10 ?bs = map (\<lambda>i. \<lparr>title = replicate i CHR ''a'', isbn = [], rating = PStr ''0'',
                              shelf = PStr ''read'', role = None\<rparr>) [0..<10]"
    by code_simp
  from detailed_view_first_ten_books [OF m] t show ?thesis
    unfolding list_ex_iff by auto
qed

text \<open>
  Claim C10. Every entry of the aggregate returned lists at least one book and has a
  count of at least one; so it is after every attribution on the way, an entry being
  created only by the attribution that appends its first book; and no view shows an
  author with a count below one.
\<close>

theorem no_author_without_books:
  assumes "extract_authors_from_goodreads rows = Inr a"
  shows "(\<forall>(k, e)\<in>set a. books e \<noteq> [] \<and> 1 \<le> total_books e)
       \<and> (\<exists>atts. rows_attributions rows = Inr atts \<and> a = fold attribute atts []
            \<and> (\<forall>n. \<forall>(k, e)\<in>set (fold attribute (take n atts) []).
                   books e \<noteq> [] \<and> 1 \<le> total_books e))
       \<and> (\<forall>s\<in>set (authors (create_cache_warming_format a)).
             1 \<le> book_count s \<and> first_books s \<noteq> [])
       \<and> (\<forall>n\<in>set (create_simple_author_list a). 1 \<le> entry_total a n)
       \<and> (\<forall>row\<in>set (tl (main_csv_rows a)). \<exists>n c. row = (CStr n, CInt c) \<and> 1 \<le> c)"
proof -
  from assms obtain atts where atts: "rows_attributions rows = Inr atts"
    and a: "a = fold attribute atts []"
    by (auto simp: extract_Inr)
  have init: "no_empty_entry []" by (simp add: no_empty_entry_def)
  have "\<And>xs. no_empty_entry (fold attribute xs [])"
    using init by (rule fold_attribute_no_empty_entry)
  then have all: "\<And>xs. \<forall>(k, e)\<in>set (fold attribute xs []). books e \<noteq> [] \<and> 1 \<le> total_books e"
    by (simp add: no_empty_entry_def list_all_iff)
  then have 1: "\<forall>(k, e)\<in>set a. books e \<noteq> [] \<and> 1 \<le> total_books e"
    unfolding a by blast
  have 3: "\<forall>s\<in>set (authors (create_cache_warming_format a)).
             1 \<le> book_count s \<and> first_books s \<noteq> []"
    using 1 unfolding detailed_authors_map by (auto simp: set_sorted_authors)
  have 4: "\<forall>n\<in>set (create_simple_author_list a). 1 \<le> entry_total a n"
  proof
    fix n assume "n \<in> set (create_simple_author_list a)"
    then have "n \<in> fst ` set a" by (simp add: simple_names set_sorted_authors)
    then obtain e where e: "map_of a n = Some e"
      by (metis map_of_eq_None_iff not_None_eq)
    then have "(n, e) \<in> set a" by (rule map_of_SomeD)
    with 1 e show "1 \<le> entry_total a n" by (auto simp: entry_total_def)
  qed
  have 5: "\<forall>row\<in>set (tl (main_csv_rows a)). \<exists>n c. row = (CStr n, CInt c) \<and> 1 \<le> c"
    using 1 by (auto simp: main_csv_rows_def set_sorted_authors)
  from 1 3 4 5 atts a all show ?thesis by blast
qed

theorem no_author_without_books_witness:
  "no_empty_entry
     [(''Jane Doe'',
       \<lparr>books = [\<lparr>title = ''Dune'', isbn = ''42'', rating = PStr ''0'',
                  shelf = PStr ''unknown'', role = None\<rparr>],
        total_books = 1\<rparr>)]
   \<and> 1 \<le> entry_total
       [(''Jane Doe'',
         \<lparr>books = [\<lparr>title = ''Dune'', isbn = ''42'', rating = PStr ''0'',
                    shelf = PStr ''unknown'', role = None\<rparr>],
          total_books = 1\<rparr>)] ''Jane Doe''"
proof -
  let ?a = "[(''Jane Doe'',
         \<lparr>books = [\<lparr>title = ''Dune'', isbn = ''42'', rating = PStr ''0'',
                    shelf = PStr ''unknown'', role = None\<rparr>],
          total_books = 1\<rparr>)]"
  have h: "extract_authors_from_goodreads
      [map_of [(''Title'', PStr ''Dune''), (''Author'', PStr ''Jane Doe''),
               (''Additional Authors'', PStr '' , Unknown''),
               (''ISBN13'', PStr ''42'')]] = Inr ?a"
    by code_simp
  have n: "''Jane Doe'' \<in> set (create_simple_author_list ?a)" by code_simp
  from no_author_without_books [OF h] n show ?thesis
    unfolding no_empty_entry_def list_all_iff by blast
qed

end
